theory Spec2Isabelle
  imports Main "HOL-Library.Word"
begin

section \<open>Do Meows: the task list and the feedback overlay of the main screen\<close>

text \<open>
  The main screen \<^verbatim>\<open>app/(tabs)/index.tsx\<close>, as listed in
  \<^verbatim>\<open>03-your-project-explained.md\<close>, keeps four \<^verbatim>\<open>useState\<close> cells and one
  \<^verbatim>\<open>useRef\<close> cell, and three handlers change them. A handler runs to its end
  before anything else happens (one JavaScript thread), so each handler is a function
  from the state before it to the state after it. The pending timeouts of the JavaScript
  runtime and the identifiers handed out by \<^verbatim>\<open>nanoid\<close> are part of that state.
\<close>

subsection \<open>Strings and \<^verbatim>\<open>String.prototype.trim\<close>\<close>

text \<open>
  A JavaScript string is a sequence of UTF-16 code units. \<^verbatim>\<open>trim\<close> removes the
  white space and the line terminators of ECMAScript from both ends: TAB, VT, FF, the
  space separators of Unicode (category Zs), the byte order mark, LF, CR, LS and PS. All
  of them are single code units.
\<close>

type_synonym jsstring = "16 word list"

definition isWhiteSpace :: "16 word \<Rightarrow> bool" where
  "isWhiteSpace c \<longleftrightarrow>
     c = 0x0009 \<or> c = 0x000A \<or> c = 0x000B \<or> c = 0x000C \<or> c = 0x000D \<or>
     c = 0x0020 \<or> c = 0x00A0 \<or> c = 0x1680 \<or> (0x2000 \<le> c \<and> c \<le> 0x200A) \<or>
     c = 0x2028 \<or> c = 0x2029 \<or> c = 0x202F \<or> c = 0x205F \<or> c = 0x3000 \<or>
     c = 0xFEFF"

definition trim :: "jsstring \<Rightarrow> jsstring" where
  "trim s = rev (dropWhile isWhiteSpace (rev (dropWhile isWhiteSpace s)))"

subsection \<open>Types of the screen\<close>

text \<open>
  \<^verbatim>\<open>TaskType = { id: string; text: string; completed: boolean }\<close>. The fields
  \<^verbatim>\<open>id\<close> and \<^verbatim>\<open>text\<close> are written \<open>task_id\<close> and \<open>task_text\<close>.
\<close>

record TaskType =
  task_id :: jsstring
  task_text :: jsstring
  completed :: bool

text \<open>\<^verbatim>\<open>type FeedbackType = 'completed' | 'deleted' | 'added' | 'uncompleted'\<close>\<close>

datatype FeedbackType = Completed | Deleted | Added | Uncompleted

text \<open>
  The component state. The first five fields are the hooks of the source, in its order.
  The last four are the environment the handlers call into:
  \<^item> \<open>clock\<close>: the time in milliseconds;
  \<^item> \<open>pending\<close>: the timeouts that are scheduled and neither fired nor cleared, each
    with its handle and the time it is due. The screen passes one callback only to
    \<^verbatim>\<open>setTimeout\<close>, so a pending timeout does not record it;
  \<^item> \<open>next_handle\<close>: the handle the next \<^verbatim>\<open>setTimeout\<close> returns (handles are
    not reused);
  \<^item> \<open>nanoid_calls\<close>: how many identifiers \<^verbatim>\<open>nanoid\<close> has produced.
\<close>

record state =
  tasks :: "TaskType list"
  inputText :: jsstring
  feedbackType :: "FeedbackType option"
  feedbackImageError :: bool
  feedbackTimeoutRef :: "nat option"
  clock :: nat
  pending :: "(nat \<times> nat) list"
  next_handle :: nat
  nanoid_calls :: nat

definition initial_state :: state where
  "initial_state =
     \<lparr>tasks = [], inputText = [], feedbackType = None, feedbackImageError = False,
      feedbackTimeoutRef = None, clock = 0, pending = [], next_handle = 0,
      nanoid_calls = 0\<rparr>"

subsection \<open>Timeouts\<close>

definition FEEDBACK_DURATION_MS :: nat where
  "FEEDBACK_DURATION_MS = 3500"

text \<open>\<^verbatim>\<open>clearTimeout(h)\<close>: the timeout with handle \<open>h\<close> will not fire; clearing a
  handle that is not pending does nothing.\<close>

definition clearTimeout :: "nat \<Rightarrow> state \<Rightarrow> state" where
  "clearTimeout h s = s\<lparr>pending := filter (\<lambda>(h', due). h' \<noteq> h) (pending s)\<rparr>"

text \<open>\<^verbatim>\<open>setTimeout(callback, delay)\<close>: returns a new handle and schedules the
  callback \<open>delay\<close> milliseconds from now.\<close>

definition setTimeout :: "nat \<Rightarrow> state \<Rightarrow> nat \<times> state" where
  "setTimeout delay s =
     (next_handle s,
      s\<lparr>pending := pending s @ [(next_handle s, clock s + delay)],
        next_handle := Suc (next_handle s)\<rparr>)"

text \<open>The callback of the timeout:
  \<^verbatim>\<open>() => { setFeedbackType(null); setFeedbackImageError(false); }\<close>\<close>

definition expire :: "state \<Rightarrow> state" where
  "expire s = (s\<lparr>feedbackType := None\<rparr>)\<lparr>feedbackImageError := False\<rparr>"

text \<open>The timeouts of \<open>s\<close> that have fired once the clock shows \<open>T\<close>.\<close>

definition due_timers :: "nat \<Rightarrow> state \<Rightarrow> (nat \<times> nat) list" where
  "due_timers T s = filter (\<lambda>(h, due). due \<le> T) (pending s)"

text \<open>
  \<open>t\<close> milliseconds pass with no handler running: every timeout that comes due leaves
  the pending ones and its callback runs, once.
\<close>

definition elapse :: "nat \<Rightarrow> state \<Rightarrow> state" where
  "elapse t s =
     (let T = clock s + t;
          fired = due_timers T s;
          s1 = s\<lparr>clock := T, pending := filter (\<lambda>(h, due). \<not> due \<le> T) (pending s)\<rparr>
      in fold (\<lambda>_. expire) fired s1)"

subsection \<open>The feedback system\<close>

text \<open>
  \<^verbatim>\<open>
  const showFeedback = (type: FeedbackType) => {
    if (feedbackTimeoutRef.current !== null) {
      clearTimeout(feedbackTimeoutRef.current);
    }
    setFeedbackImageError(false);
    setFeedbackType(type);
    feedbackTimeoutRef.current = setTimeout(() => {
      setFeedbackType(null);
      setFeedbackImageError(false);
    }, FEEDBACK_DURATION_MS);
  };
  \<close>
\<close>

definition showFeedback :: "FeedbackType \<Rightarrow> state \<Rightarrow> state" where
  "showFeedback ty s =
     (let s1 = (case feedbackTimeoutRef s of
                  Some h \<Rightarrow> clearTimeout h s
                | None \<Rightarrow> s);
          s2 = s1\<lparr>feedbackImageError := False\<rparr>;
          s3 = s2\<lparr>feedbackType := Some ty\<rparr>;
          (h, s4) = setTimeout FEEDBACK_DURATION_MS s3
      in s4\<lparr>feedbackTimeoutRef := Some h\<rparr>)"

text \<open>
  Modelled from the spec: the handler that runs when the feedback image fails to load.
  The listing of the screen declares \<open>feedbackImageError\<close> ("If GIF fails to load") and
  omits the \<^verbatim>\<open>Image\<close> error handler that sets it; the specification says that the
  flag "is set true externally when the associated render of the asset fails".
\<close>

definition handleImageError :: "state \<Rightarrow> state" where
  "handleImageError s = s\<lparr>feedbackImageError := True\<rparr>"

subsection \<open>The task handlers\<close>

text \<open>
  \<^verbatim>\<open>
  const handleAddTask = () => {
    if (!inputText.trim()) return;
    setTasks((prev) => [
      ...prev,
      { id: nanoid(), text: inputText.trim(), completed: false },
    ]);
    setInputText('');
    showFeedback('added');
  };
  \<close>
  \<^verbatim>\<open>nanoid\<close> is a library function; \<open>nanoid k\<close> is the identifier its call number
  \<open>k\<close> returns. The empty string is the only string that is falsy.
\<close>

definition handleAddTask :: "(nat \<Rightarrow> jsstring) \<Rightarrow> state \<Rightarrow> state" where
  "handleAddTask nanoid s =
     (if trim (inputText s) = [] then s
      else
        let s1 = s\<lparr>tasks := tasks s @
                      [\<lparr>task_id = nanoid (nanoid_calls s),
                        task_text = trim (inputText s),
                        completed = False\<rparr>],
                    nanoid_calls := Suc (nanoid_calls s)\<rparr>;
            s2 = s1\<lparr>inputText := []\<rparr>
        in showFeedback Added s2)"

text \<open>
  \<^verbatim>\<open>
  const handleToggleComplete = (id: string) => {
    setTasks((prev) => {
      const next = prev.map((t) =>
        t.id === id ? { ...t, completed: !t.completed } : t
      );
      const task = next.find((t) => t.id === id);
      if (task?.completed) showFeedback('completed');
      else showFeedback('uncompleted');
      return next;
    });
  };
  \<close>
  \<^verbatim>\<open>find\<close> returns the first match or \<^verbatim>\<open>undefined\<close>, and
  \<^verbatim>\<open>undefined?.completed\<close> is \<^verbatim>\<open>undefined\<close>, which is falsy.
\<close>

definition handleToggleComplete :: "jsstring \<Rightarrow> state \<Rightarrow> state" where
  "handleToggleComplete i s =
     (let next = map (\<lambda>t. if task_id t = i then t\<lparr>completed := \<not> completed t\<rparr> else t)
                   (tasks s);
          task = find (\<lambda>t. task_id t = i) next;
          s1 = (if (case task of Some t \<Rightarrow> completed t | None \<Rightarrow> False)
                then showFeedback Completed s
                else showFeedback Uncompleted s)
      in s1\<lparr>tasks := next\<rparr>)"

text \<open>
  \<^verbatim>\<open>
  const handleDelete = (id: string) => {
    setTasks((prev) => prev.filter((t) => t.id !== id));
    showFeedback('deleted');
  };
  \<close>
\<close>

definition handleDelete :: "jsstring \<Rightarrow> state \<Rightarrow> state" where
  "handleDelete i s =
     showFeedback Deleted (s\<lparr>tasks := filter (\<lambda>t. task_id t \<noteq> i) (tasks s)\<rparr>)"

subsection \<open>Runs of the screen\<close>

text \<open>
  What can happen to the mounted screen: the user edits the input field
  (\<^verbatim>\<open>onChangeText={setInputText}\<close>), presses Add, toggles or deletes a task, time
  passes, or the feedback image fails to load.
\<close>

datatype event =
    ChangeText jsstring
  | PressAdd
  | Toggle jsstring
  | Delete jsstring
  | Wait nat
  | ImageError

fun step :: "(nat \<Rightarrow> jsstring) \<Rightarrow> event \<Rightarrow> state \<Rightarrow> state" where
  "step nanoid (ChangeText x) s = s\<lparr>inputText := x\<rparr>"
| "step nanoid PressAdd s = handleAddTask nanoid s"
| "step nanoid (Toggle i) s = handleToggleComplete i s"
| "step nanoid (Delete i) s = handleDelete i s"
| "step nanoid (Wait t) s = elapse t s"
| "step nanoid ImageError s = handleImageError s"

definition run :: "(nat \<Rightarrow> jsstring) \<Rightarrow> event list \<Rightarrow> state" where
  "run nanoid evs = fold (step nanoid) evs initial_state"

subsection \<open>Invariants of a run\<close>

text \<open>
  The feedback timer: at most one timeout is pending; it is the one whose handle
  \<open>feedbackTimeoutRef\<close> holds, it is not yet due and it is due within the display
  window; and with no timeout pending no feedback is shown.
\<close>

definition timer_inv :: "state \<Rightarrow> bool" where
  "timer_inv s \<longleftrightarrow>
     length (pending s) \<le> 1 \<and>
     (pending s = [] \<longrightarrow> feedbackType s = None) \<and>
     (\<forall>(h, due)\<in>set (pending s).
        feedbackTimeoutRef s = Some h \<and> h < next_handle s \<and>
        clock s < due \<and> due \<le> clock s + FEEDBACK_DURATION_MS)"

text \<open>The identifiers: no two tasks have the same one, and every task carries one that
  an earlier call of \<^verbatim>\<open>nanoid\<close> has returned.\<close>

definition ids_inv :: "(nat \<Rightarrow> jsstring) \<Rightarrow> state \<Rightarrow> bool" where
  "ids_inv nanoid s \<longleftrightarrow>
     distinct (map task_id (tasks s)) \<and>
     (\<forall>t\<in>set (tasks s). task_id t \<in> nanoid ` {..<nanoid_calls s})"

section \<open>Properties\<close>

subsection \<open>Trimming\<close>

lemma all_dropWhile: "(\<forall>x\<in>set (dropWhile P s). P x) \<longleftrightarrow> (\<forall>x\<in>set s. P x)"
  by (induction s) auto

lemma trim_empty_iff: "trim s = [] \<longleftrightarrow> (\<forall>c\<in>set s. isWhiteSpace c)"
  by (simp add: trim_def all_dropWhile)

subsection \<open>What \<open>showFeedback\<close> changes\<close>

lemma showFeedback_fields:
  "tasks (showFeedback ty s) = tasks s"
  "inputText (showFeedback ty s) = inputText s"
  "feedbackType (showFeedback ty s) = Some ty"
  "feedbackImageError (showFeedback ty s) = False"
  "feedbackTimeoutRef (showFeedback ty s) = Some (next_handle s)"
  "clock (showFeedback ty s) = clock s"
  "next_handle (showFeedback ty s) = Suc (next_handle s)"
  "nanoid_calls (showFeedback ty s) = nanoid_calls s"
  by (simp_all add: showFeedback_def setTimeout_def clearTimeout_def Let_def split: option.splits)

lemma showFeedback_pending:
  "pending (showFeedback ty s) =
     (case feedbackTimeoutRef s of
        Some h \<Rightarrow> filter (\<lambda>(h', due). h' \<noteq> h) (pending s)
      | None \<Rightarrow> pending s) @ [(next_handle s, clock s + FEEDBACK_DURATION_MS)]"
  by (simp add: showFeedback_def setTimeout_def clearTimeout_def Let_def split: option.splits)

subsection \<open>The timer invariant holds in every run\<close>

lemma timer_inv_cases:
  "timer_inv s \<longleftrightarrow>
     pending s = [] \<and> feedbackType s = None \<or>
     (\<exists>h due. pending s = [(h, due)] \<and> feedbackTimeoutRef s = Some h \<and> h < next_handle s \<and>
        clock s < due \<and> due \<le> clock s + FEEDBACK_DURATION_MS)"
proof (cases "pending s")
  case Nil
  then show ?thesis by (simp add: timer_inv_def)
next
  case (Cons p ps)
  then show ?thesis by (cases p; cases ps) (auto simp: timer_inv_def)
qed

lemma timer_inv_initial: "timer_inv initial_state"
  by (simp add: timer_inv_def initial_state_def)

lemma showFeedback_pending_inv:
  "timer_inv s \<Longrightarrow> pending (showFeedback ty s) = [(next_handle s, clock s + FEEDBACK_DURATION_MS)]"
  by (auto simp: timer_inv_cases showFeedback_pending split: option.splits)

lemma timer_inv_showFeedback: "timer_inv s \<Longrightarrow> timer_inv (showFeedback ty s)"
  unfolding timer_inv_def [of "showFeedback ty s"]
  by (simp add: showFeedback_pending_inv showFeedback_fields FEEDBACK_DURATION_MS_def)

lemma elapse_idle: "pending s = [] \<Longrightarrow> elapse t s = s\<lparr>clock := clock s + t\<rparr>"
  by (simp add: elapse_def due_timers_def Let_def)

lemma elapse_single:
  "pending s = [(h, due)] \<Longrightarrow>
   elapse t s = (if due \<le> clock s + t then expire (s\<lparr>clock := clock s + t, pending := []\<rparr>)
                 else s\<lparr>clock := clock s + t\<rparr>)"
  by (simp add: elapse_def due_timers_def Let_def)

lemma timer_inv_elapse:
  assumes "timer_inv s"
  shows "timer_inv (elapse t s)"
proof -
  from assms consider
    (idle) "pending s = []" "feedbackType s = None"
  | (showing) h due where "pending s = [(h, due)]" "feedbackTimeoutRef s = Some h"
      "h < next_handle s" "clock s < due" "due \<le> clock s + FEEDBACK_DURATION_MS"
    by (auto simp: timer_inv_cases)
  then show ?thesis
  proof cases
    case idle
    then show ?thesis by (simp add: elapse_idle timer_inv_def)
  next
    case showing
    then show ?thesis by (simp add: elapse_single timer_inv_def expire_def)
  qed
qed

lemma timer_inv_step: "timer_inv s \<Longrightarrow> timer_inv (step nanoid e s)"
proof (cases e)
  case PressAdd
  assume "timer_inv s"
  then have "timer_inv (showFeedback Added (s\<lparr>tasks := ts, nanoid_calls := n, inputText := x\<rparr>))"
    for ts n x
    by (intro timer_inv_showFeedback) (simp add: timer_inv_def)
  with \<open>timer_inv s\<close> PressAdd show ?thesis
    by (simp add: handleAddTask_def Let_def)
next
  case (Toggle i)
  assume "timer_inv s"
  then have "timer_inv (showFeedback k s\<lparr>tasks := ts\<rparr>)" for k ts
    using timer_inv_showFeedback [of s k] by (simp add: timer_inv_def)
  with Toggle show ?thesis
    by (simp add: handleToggleComplete_def Let_def)
next
  case (Delete i)
  assume "timer_inv s"
  then have "timer_inv (showFeedback Deleted (s\<lparr>tasks := ts\<rparr>))" for ts
    by (intro timer_inv_showFeedback) (simp add: timer_inv_def)
  with Delete show ?thesis
    by (simp add: handleDelete_def)
qed (simp_all add: timer_inv_elapse, simp_all add: timer_inv_def handleImageError_def)

lemma timer_inv_fold: "timer_inv s \<Longrightarrow> timer_inv (fold (step nanoid) evs s)"
  by (induction evs arbitrary: s) (simp_all add: timer_inv_step)

lemma timer_inv_run: "timer_inv (run nanoid evs)"
  by (simp add: run_def timer_inv_fold timer_inv_initial)

subsection \<open>Adding a task\<close>

text \<open>
  C4. When the input text is empty or holds white space only, \<open>handleAddTask\<close> returns
  at its first line: the state after the call is the state before it. The tasks are the
  same, no feedback is shown, no timeout is scheduled or cleared, and nothing is raised
  (the handler is a total function).
\<close>

theorem handleAddTask_blank:
  "\<forall>c\<in>set (inputText s). isWhiteSpace c \<Longrightarrow> handleAddTask nanoid s = s"
  by (simp add: handleAddTask_def trim_empty_iff)

theorem handleAddTask_blank_witness:
  "list_all isWhiteSpace (inputText (initial_state\<lparr>inputText := [0x20, 0x09, 0x0A]\<rparr>)) \<and>
   handleAddTask (\<lambda>n. [of_nat n]) (initial_state\<lparr>inputText := [0x20, 0x09, 0x0A]\<rparr>) =
     initial_state\<lparr>inputText := [0x20, 0x09, 0x0A]\<rparr>"
  using handleAddTask_blank [of "initial_state\<lparr>inputText := [0x20, 0x09, 0x0A]\<rparr>" "\<lambda>n. [of_nat n]"]
  by (simp add: isWhiteSpace_def)

text \<open>
  C10. \<open>handleAddTask\<close> clears the input text exactly when it adds a task: after a call
  with an input text that is empty or white space only, \<open>inputText\<close> is what it was;
  after any other call it is the empty string.
\<close>

theorem handleAddTask_inputText:
  "inputText (handleAddTask nanoid s) =
     (if \<forall>c\<in>set (inputText s). isWhiteSpace c then inputText s else [])"
  by (simp add: handleAddTask_def trim_empty_iff [symmetric] showFeedback_fields Let_def)

theorem handleAddTask_inputText_witness:
  "inputText (handleAddTask (\<lambda>n. [of_nat n]) (initial_state\<lparr>inputText := [0x20, 0x61]\<rparr>)) = [] \<and>
   inputText (handleAddTask (\<lambda>n. [of_nat n]) (initial_state\<lparr>inputText := [0x20, 0x20]\<rparr>)) =
     [0x20, 0x20]"
  using handleAddTask_inputText [of "\<lambda>n. [of_nat n]" "initial_state\<lparr>inputText := [0x20, 0x61]\<rparr>"]
    handleAddTask_inputText [of "\<lambda>n. [of_nat n]" "initial_state\<lparr>inputText := [0x20, 0x20]\<rparr>"]
  by (simp add: isWhiteSpace_def)

subsection \<open>Toggling a task\<close>

lemma toggle_absent:
  "i \<notin> task_id ` set ts \<Longrightarrow>
   map (\<lambda>t. if task_id t = i then t\<lparr>completed := \<not> completed t\<rparr> else t) ts = ts"
  by (induction ts) auto

lemma find_absent: "i \<notin> task_id ` set ts \<Longrightarrow> find (\<lambda>t. task_id t = i) ts = None"
  by (induction ts) auto

text \<open>
  C2, as the code has it. When no task has the identifier, \<open>handleToggleComplete\<close>
  leaves the tasks as they are, and it is not a no-op: \<^verbatim>\<open>task?.completed\<close> is
  \<^verbatim>\<open>undefined\<close>, the \<^verbatim>\<open>else\<close> branch runs, and the handler does what
  \<open>showFeedback Uncompleted\<close> does.
\<close>

theorem handleToggleComplete_absent:
  "i \<notin> task_id ` set (tasks s) \<Longrightarrow>
   handleToggleComplete i s = showFeedback Uncompleted s \<and>
   tasks (handleToggleComplete i s) = tasks s \<and>
   feedbackType (handleToggleComplete i s) = Some Uncompleted"
  by (simp add: handleToggleComplete_def toggle_absent find_absent showFeedback_fields)

theorem handleToggleComplete_absent_witness:
  "[0x78] \<notin> task_id ` set [\<lparr>task_id = [0x61], task_text = [0x62], completed = True\<rparr>] \<and>
   handleToggleComplete [0x78]
     (initial_state\<lparr>tasks := [\<lparr>task_id = [0x61], task_text = [0x62], completed = True\<rparr>]\<rparr>) =
   showFeedback Uncompleted
     (initial_state\<lparr>tasks := [\<lparr>task_id = [0x61], task_text = [0x62], completed = True\<rparr>]\<rparr>) \<and>
   tasks (handleToggleComplete [0x78]
     (initial_state\<lparr>tasks := [\<lparr>task_id = [0x61], task_text = [0x62], completed = True\<rparr>]\<rparr>)) =
   [\<lparr>task_id = [0x61], task_text = [0x62], completed = True\<rparr>] \<and>
   feedbackType (handleToggleComplete [0x78]
     (initial_state\<lparr>tasks := [\<lparr>task_id = [0x61], task_text = [0x62], completed = True\<rparr>]\<rparr>)) =
   Some Uncompleted"
  using handleToggleComplete_absent [of "[0x78]"
     "initial_state\<lparr>tasks := [\<lparr>task_id = [0x61], task_text = [0x62], completed = True\<rparr>]\<rparr>"]
  by (simp add: showFeedback_fields)

text \<open>
  The claim as the specification states it (no feedback of any kind for an identifier
  that no task has) fails on the screen as it starts: no task, no feedback shown, and
  after toggling the identifier \<^verbatim>\<open>"x"\<close> the feedback \<open>Uncompleted\<close> is shown and its
  timeout is pending.
\<close>

theorem handleToggleComplete_absent_counterexample:
  "[0x78] \<notin> task_id ` set (tasks initial_state) \<and>
   feedbackType initial_state = None \<and>
   feedbackType (handleToggleComplete [0x78] initial_state) = Some Uncompleted \<and>
   pending initial_state = [] \<and>
   pending (handleToggleComplete [0x78] initial_state) = [(0, 3500)]"
  by (simp add: handleToggleComplete_def showFeedback_def setTimeout_def initial_state_def
      FEEDBACK_DURATION_MS_def)

subsection \<open>The feedback timer\<close>

lemma fold_expire: "fold (\<lambda>_. expire) xs s = (if xs = [] then s else expire s)"
  by (induction xs arbitrary: s) (auto simp: expire_def)

lemma elapse_fields:
  "tasks (elapse t s) = tasks s"
  "inputText (elapse t s) = inputText s"
  "feedbackTimeoutRef (elapse t s) = feedbackTimeoutRef s"
  "clock (elapse t s) = clock s + t"
  "next_handle (elapse t s) = next_handle s"
  "nanoid_calls (elapse t s) = nanoid_calls s"
  "pending (elapse t s) = filter (\<lambda>(h, due). \<not> due \<le> clock s + t) (pending s)"
  "feedbackType (elapse t s) = (if due_timers (clock s + t) s = [] then feedbackType s else None)"
  "feedbackImageError (elapse t s) =
     (due_timers (clock s + t) s = [] \<and> feedbackImageError s)"
  "state.more (elapse t s) = state.more s"
  by (simp_all add: elapse_def Let_def fold_expire expire_def)

lemma due_timers_elapse:
  "due_timers (clock s + t1 + t2) (elapse t1 s) = [] \<and> due_timers (clock s + t1) s = [] \<longleftrightarrow>
   due_timers (clock s + (t1 + t2)) s = []"
  by (auto simp: due_timers_def elapse_fields filter_empty_conv)

text \<open>Two waits in a row are one wait of their sum, so a property of every single
  wait is a property of every sequence of waits.\<close>

lemma elapse_add: "elapse t2 (elapse t1 s) = elapse (t1 + t2) s"
proof (rule state.equality)
  show "pending (elapse t2 (elapse t1 s)) = pending (elapse (t1 + t2) s)"
    by (auto simp: elapse_fields intro!: filter_cong)
  show "feedbackType (elapse t2 (elapse t1 s)) = feedbackType (elapse (t1 + t2) s)"
    using due_timers_elapse [of s t1 t2] by (auto simp: elapse_fields)
  show "feedbackImageError (elapse t2 (elapse t1 s)) = feedbackImageError (elapse (t1 + t2) s)"
    using due_timers_elapse [of s t1 t2] by (auto simp: elapse_fields)
qed (simp_all add: elapse_fields)


lemma showFeedback_elapse:
  assumes "timer_inv s"
  shows "elapse t (showFeedback k s) =
     (if t < FEEDBACK_DURATION_MS then (showFeedback k s)\<lparr>clock := clock s + t\<rparr>
      else expire ((showFeedback k s)\<lparr>clock := clock s + t, pending := []\<rparr>))"
  using showFeedback_pending_inv [OF assms, of k]
  by (simp add: elapse_single showFeedback_fields not_less)

lemma showFeedback_due:
  assumes "timer_inv s"
  shows "due_timers T (showFeedback k s) =
     (if T < clock s + FEEDBACK_DURATION_MS then []
      else [(next_handle s, clock s + FEEDBACK_DURATION_MS)])"
  using showFeedback_pending_inv [OF assms, of k]
  by (simp add: due_timers_def not_less)

lemma showFeedback_elapse_fields:
  assumes "timer_inv s"
  shows "feedbackType (elapse t (showFeedback k s)) =
           (if t < FEEDBACK_DURATION_MS then Some k else None)"
    and "pending (elapse t (showFeedback k s)) =
           (if t < FEEDBACK_DURATION_MS then [(next_handle s, clock s + FEEDBACK_DURATION_MS)] else [])"
    and "next_handle (elapse t (showFeedback k s)) = Suc (next_handle s)"
    and "clock (elapse t (showFeedback k s)) = clock s + t"
  using showFeedback_pending_inv [OF assms, of k]
  by (simp_all add: showFeedback_elapse [OF assms] showFeedback_fields expire_def)

text \<open>
  C1. In every run of the screen at most one timeout is pending (and the feedback shown
  is one kind or none). Let \<open>showFeedback A\<close> be called in a state \<open>s\<close> that satisfies
  the timer invariant, as every state of a run does, and \<open>showFeedback B\<close> after \<open>d\<close>
  milliseconds, less than the display duration. Then, with \<open>hA\<close> and \<open>hB\<close> the handles
  of the two timeouts: when \<open>B\<close> is triggered \<open>A\<close> is shown and its timeout is pending;
  after the trigger the only pending timeout is the one of \<open>B\<close>, a different handle, due
  a full duration later, so the one of \<open>A\<close> is cancelled; \<open>B\<close> is shown, and it stays
  shown for every wait shorter than the duration and is dismissed by every longer one;
  the timeouts that fire during such a wait are none and after it the one of \<open>B\<close> alone.
  More generally, whatever timeout is pending when \<open>showFeedback B\<close> is called is not
  pending after the call and never fires.
\<close>

theorem showFeedback_supersedes:
  "timer_inv (run nanoid evs) \<and> length (pending (run nanoid evs)) \<le> 1 \<and>
   (timer_inv s \<and> d < FEEDBACK_DURATION_MS \<longrightarrow>
     (let sA = showFeedback A s; hA = next_handle s;
          s' = elapse d sA;
          sB = showFeedback B s'; hB = next_handle s'
      in pending sA = [(hA, clock sA + FEEDBACK_DURATION_MS)] \<and>
         feedbackType s' = Some A \<and> pending s' = pending sA \<and>
         hB \<noteq> hA \<and>
         pending sB = [(hB, clock sB + FEEDBACK_DURATION_MS)] \<and>
         feedbackType sB = Some B \<and>
         (\<forall>t. feedbackType (elapse t sB) = (if t < FEEDBACK_DURATION_MS then Some B else None)) \<and>
         (\<forall>t. map fst (due_timers (clock sB + t) sB) =
                (if t < FEEDBACK_DURATION_MS then [] else [hB])) \<and>
         (\<forall>t. pending (elapse t sB) =
                (if t < FEEDBACK_DURATION_MS then [(hB, clock sB + FEEDBACK_DURATION_MS)] else [])))) \<and>
   (timer_inv s \<and> (h, due) \<in> set (pending s) \<longrightarrow>
     h \<noteq> next_handle s \<and>
     pending (showFeedback B s) = [(next_handle s, clock s + FEEDBACK_DURATION_MS)] \<and>
     (\<forall>t. h \<notin> fst ` set (due_timers t (showFeedback B s))))"
proof (intro conjI impI allI)
  show "timer_inv (run nanoid evs)" by (rule timer_inv_run)
  then show "length (pending (run nanoid evs)) \<le> 1" by (simp add: timer_inv_def)
next
  assume a: "timer_inv s \<and> d < FEEDBACK_DURATION_MS"
  then have s: "timer_inv s" and d: "d < FEEDBACK_DURATION_MS" by simp_all
  have s': "timer_inv (elapse d (showFeedback A s))"
    by (intro timer_inv_elapse timer_inv_showFeedback s)
  show "let sA = showFeedback A s; hA = next_handle s;
          s' = elapse d sA;
          sB = showFeedback B s'; hB = next_handle s'
      in pending sA = [(hA, clock sA + FEEDBACK_DURATION_MS)] \<and>
         feedbackType s' = Some A \<and> pending s' = pending sA \<and>
         hB \<noteq> hA \<and>
         pending sB = [(hB, clock sB + FEEDBACK_DURATION_MS)] \<and>
         feedbackType sB = Some B \<and>
         (\<forall>t. feedbackType (elapse t sB) = (if t < FEEDBACK_DURATION_MS then Some B else None)) \<and>
         (\<forall>t. map fst (due_timers (clock sB + t) sB) =
                (if t < FEEDBACK_DURATION_MS then [] else [hB])) \<and>
         (\<forall>t. pending (elapse t sB) =
                (if t < FEEDBACK_DURATION_MS then [(hB, clock sB + FEEDBACK_DURATION_MS)] else []))"
    unfolding Let_def
    using d
    by (simp add: showFeedback_pending_inv [OF s] showFeedback_pending_inv [OF s']
        showFeedback_elapse_fields [OF s] showFeedback_elapse_fields [OF s']
        showFeedback_due [OF s'] showFeedback_fields)
next
  fix t
  assume "timer_inv s \<and> (h, due) \<in> set (pending s)"
  then have s: "timer_inv s" and h: "h < next_handle s"
    by (auto simp: timer_inv_def)
  from h show "h \<noteq> next_handle s" by simp
  show "pending (showFeedback B s) = [(next_handle s, clock s + FEEDBACK_DURATION_MS)]"
    by (rule showFeedback_pending_inv [OF s])
  from h show "h \<notin> fst ` set (due_timers t (showFeedback B s))"
    by (simp add: showFeedback_due [OF s])
qed


theorem showFeedback_supersedes_witness:
  "timer_inv (run (\<lambda>n. [of_nat n]) [ChangeText [0x61], PressAdd, Wait 1000]) \<and>
   (2000::nat) < FEEDBACK_DURATION_MS \<and>
   pending (showFeedback Completed (run (\<lambda>n. [of_nat n]) [ChangeText [0x61], PressAdd, Wait 1000])) =
     [(1, 4500)] \<and>
   pending (showFeedback Deleted (elapse 2000
      (showFeedback Completed (run (\<lambda>n. [of_nat n]) [ChangeText [0x61], PressAdd, Wait 1000])))) =
     [(2, 6500)] \<and>
   feedbackType (elapse 3499 (showFeedback Deleted (elapse 2000
      (showFeedback Completed (run (\<lambda>n. [of_nat n]) [ChangeText [0x61], PressAdd, Wait 1000]))))) =
     Some Deleted \<and>
   feedbackType (elapse 3500 (showFeedback Deleted (elapse 2000
      (showFeedback Completed (run (\<lambda>n. [of_nat n]) [ChangeText [0x61], PressAdd, Wait 1000]))))) =
     None"
proof -
  let ?s = "run (\<lambda>n. [of_nat n]) [ChangeText [0x61], PressAdd, Wait 1000]"
  let ?sA = "showFeedback Completed ?s"
  let ?sB = "showFeedback Deleted (elapse 2000 ?sA)"
  have s: "?s = \<lparr>tasks = [\<lparr>task_id = [0], task_text = [0x61], completed = False\<rparr>], inputText = [],
      feedbackType = Some Added, feedbackImageError = False, feedbackTimeoutRef = Some 0,
      clock = 1000, pending = [(0, 3500)], next_handle = 1, nanoid_calls = 1\<rparr>"
    by (simp add: run_def handleAddTask_def trim_def isWhiteSpace_def showFeedback_def
        setTimeout_def elapse_def due_timers_def initial_state_def FEEDBACK_DURATION_MS_def)
  have n: "next_handle ?s = 1" "clock ?s = 1000"
    by (simp_all add: s)
  have inv: "timer_inv ?s"
    unfolding s by (simp add: timer_inv_def FEEDBACK_DURATION_MS_def)
  have d: "(2000::nat) < FEEDBACK_DURATION_MS"
    by (simp add: FEEDBACK_DURATION_MS_def)
  note T = showFeedback_supersedes [of "\<lambda>n. [of_nat n]" "[ChangeText [0x61], PressAdd, Wait 1000]"
      ?s 2000 Completed Deleted, unfolded Let_def, THEN conjunct2, THEN conjunct2,
      THEN conjunct1, rule_format, OF conjI [OF inv d]]
  from T have "pending ?sA = [(next_handle ?s, clock ?sA + FEEDBACK_DURATION_MS)]"
    by (elim conjE)
  then have 1: "pending ?sA = [(1, 4500)]"
    by (simp add: showFeedback_fields(6) n FEEDBACK_DURATION_MS_def)
  from T have "pending ?sB = [(next_handle (elapse 2000 ?sA), clock ?sB + FEEDBACK_DURATION_MS)]"
    by (elim conjE)
  then have 2: "pending ?sB = [(2, 6500)]"
    by (simp add: showFeedback_fields(6,7) elapse_fields(4,5) n FEEDBACK_DURATION_MS_def)
  from T have "\<forall>t. feedbackType (elapse t ?sB) =
      (if t < FEEDBACK_DURATION_MS then Some Deleted else None)"
    by (elim conjE)
  then have 3: "feedbackType (elapse 3499 ?sB) = Some Deleted"
    and 4: "feedbackType (elapse 3500 ?sB) = None"
    by (simp_all add: FEEDBACK_DURATION_MS_def)
  from inv d 1 2 3 4 show ?thesis by (intro conjI)
qed

text \<open>
  C7. The display duration is 3500 milliseconds. After \<open>showFeedback k\<close> in a state that
  satisfies the timer invariant, the only pending timeout is the new one, due 3500
  milliseconds after the call. With no further trigger, the feedback is \<open>k\<close> for every
  wait shorter than 3500 and none from 3500 on; of two waits in a row the second fires
  the timeout exactly when the first ends before 3500 and the second ends at or after it,
  so the timeout fires once, and a wait after the dismissal changes the clock only. When
  another trigger comes before 3500, the timeout is no longer pending and never fires.
\<close>

theorem showFeedback_expires:
  "FEEDBACK_DURATION_MS = 3500 \<and>
   (timer_inv s \<longrightarrow>
     (let sK = showFeedback k s; h = next_handle s
      in pending sK = [(h, clock sK + 3500)] \<and>
         (\<forall>t. feedbackType (elapse t sK) = (if t < 3500 then Some k else None)) \<and>
         (\<forall>t. map fst (due_timers (clock sK + t) sK) = (if t < 3500 then [] else [h])) \<and>
         (\<forall>t1 t2. map fst (due_timers (clock sK + t1 + t2) (elapse t1 sK)) =
                   (if t1 < 3500 \<and> 3500 \<le> t1 + t2 then [h] else [])) \<and>
         (\<forall>t1 t2. 3500 \<le> t1 \<longrightarrow>
            elapse t2 (elapse t1 sK) = (elapse t1 sK)\<lparr>clock := clock sK + t1 + t2\<rparr> \<and>
            feedbackType (elapse t2 (elapse t1 sK)) = None) \<and>
         (\<forall>d k' t. d < 3500 \<longrightarrow>
            h \<notin> fst ` set (pending (showFeedback k' (elapse d sK))) \<and>
            h \<notin> fst ` set (due_timers t (showFeedback k' (elapse d sK))))))"
proof (intro conjI impI)
  show "FEEDBACK_DURATION_MS = 3500" by (simp add: FEEDBACK_DURATION_MS_def)
next
  assume s: "timer_inv s"
  have e: "timer_inv (elapse d (showFeedback k s))" for d
    by (intro timer_inv_elapse timer_inv_showFeedback s)
  have p: "pending (elapse t1 (showFeedback k s)) = []" if "3500 \<le> t1" for t1
    using that by (simp add: showFeedback_elapse_fields [OF s] FEEDBACK_DURATION_MS_def)
  show "let sK = showFeedback k s; h = next_handle s
      in pending sK = [(h, clock sK + 3500)] \<and>
         (\<forall>t. feedbackType (elapse t sK) = (if t < 3500 then Some k else None)) \<and>
         (\<forall>t. map fst (due_timers (clock sK + t) sK) = (if t < 3500 then [] else [h])) \<and>
         (\<forall>t1 t2. map fst (due_timers (clock sK + t1 + t2) (elapse t1 sK)) =
                   (if t1 < 3500 \<and> 3500 \<le> t1 + t2 then [h] else [])) \<and>
         (\<forall>t1 t2. 3500 \<le> t1 \<longrightarrow>
            elapse t2 (elapse t1 sK) = (elapse t1 sK)\<lparr>clock := clock sK + t1 + t2\<rparr> \<and>
            feedbackType (elapse t2 (elapse t1 sK)) = None) \<and>
         (\<forall>d k' t. d < 3500 \<longrightarrow>
            h \<notin> fst ` set (pending (showFeedback k' (elapse d sK))) \<and>
            h \<notin> fst ` set (due_timers t (showFeedback k' (elapse d sK))))"
    unfolding Let_def
  proof (intro conjI allI impI)
    fix t1 t2 :: nat
    show "map fst (due_timers (clock (showFeedback k s) + t1 + t2) (elapse t1 (showFeedback k s))) =
          (if t1 < 3500 \<and> 3500 \<le> t1 + t2 then [next_handle s] else [])"
      by (auto simp: due_timers_def showFeedback_elapse_fields [OF s] showFeedback_fields
          FEEDBACK_DURATION_MS_def)
  next
    fix t1 t2 :: nat
    assume "3500 \<le> t1"
    then show "elapse t2 (elapse t1 (showFeedback k s)) =
       (elapse t1 (showFeedback k s))\<lparr>clock := clock (showFeedback k s) + t1 + t2\<rparr>"
      by (simp add: elapse_idle [OF p] elapse_fields)
  next
    fix t1 t2 :: nat
    assume "3500 \<le> t1"
    then show "feedbackType (elapse t2 (elapse t1 (showFeedback k s))) = None"
      by (simp add: elapse_idle [OF p] showFeedback_elapse_fields [OF s] FEEDBACK_DURATION_MS_def)
  next
    fix d k' t
    show "next_handle s \<notin> fst ` set (pending (showFeedback k' (elapse d (showFeedback k s))))"
      by (simp add: showFeedback_pending_inv [OF e] showFeedback_elapse_fields [OF s])
    show "next_handle s \<notin> fst ` set (due_timers t (showFeedback k' (elapse d (showFeedback k s))))"
      by (simp add: showFeedback_due [OF e] showFeedback_elapse_fields [OF s])
  qed (simp_all add: showFeedback_pending_inv [OF s] showFeedback_elapse_fields [OF s]
      showFeedback_due [OF s] showFeedback_fields FEEDBACK_DURATION_MS_def)
qed


theorem showFeedback_expires_witness:
  "timer_inv initial_state \<and>
   pending (showFeedback Added initial_state) = [(0, 3500)] \<and>
   feedbackType (elapse 3499 (showFeedback Added initial_state)) = Some Added \<and>
   feedbackType (elapse 3500 (showFeedback Added initial_state)) = None \<and>
   map fst (due_timers (clock (showFeedback Added initial_state) + 3000 + 1000)
      (elapse 3000 (showFeedback Added initial_state))) = [0] \<and>
   map fst (due_timers (clock (showFeedback Added initial_state) + 4000 + 4000)
      (elapse 4000 (showFeedback Added initial_state))) = [] \<and>
   feedbackType (elapse 4000 (elapse 4000 (showFeedback Added initial_state))) = None \<and>
   0 \<notin> fst ` set (pending (showFeedback Deleted (elapse 100 (showFeedback Added initial_state))))"
proof -
  let ?sK = "showFeedback Added initial_state"
  have n: "next_handle initial_state = 0" "clock initial_state = 0"
    by (simp_all add: initial_state_def)
  note T = showFeedback_expires [of initial_state Added, unfolded Let_def, THEN conjunct2,
      rule_format, OF timer_inv_initial]
  from T have "pending ?sK = [(next_handle initial_state, clock ?sK + 3500)]"
    by (elim conjE)
  then have 1: "pending ?sK = [(0, 3500)]"
    by (simp add: showFeedback_fields(6) n)
  from T have "\<forall>t. feedbackType (elapse t ?sK) = (if t < 3500 then Some Added else None)"
    by (elim conjE)
  then have 2: "feedbackType (elapse 3499 ?sK) = Some Added"
    and 3: "feedbackType (elapse 3500 ?sK) = None"
    by simp_all
  from T have "\<forall>t1 t2. map fst (due_timers (clock ?sK + t1 + t2) (elapse t1 ?sK)) =
      (if t1 < 3500 \<and> 3500 \<le> t1 + t2 then [next_handle initial_state] else [])"
    by (elim conjE)
  note U = this [rule_format]
  have 4: "map fst (due_timers (clock ?sK + 3000 + 1000) (elapse 3000 ?sK)) = [0]"
    using U [of 3000 1000] by (simp add: n)
  have 5: "map fst (due_timers (clock ?sK + 4000 + 4000) (elapse 4000 ?sK)) = []"
    using U [of 4000 4000] by simp
  from T have "\<forall>t1 t2. 3500 \<le> t1 \<longrightarrow>
      elapse t2 (elapse t1 ?sK) = (elapse t1 ?sK)\<lparr>clock := clock ?sK + t1 + t2\<rparr> \<and>
      feedbackType (elapse t2 (elapse t1 ?sK)) = None"
    by (elim conjE)
  note V = this [rule_format]
  have le: "(3500::nat) \<le> 4000" by simp
  have 6: "feedbackType (elapse 4000 (elapse 4000 ?sK)) = None"
    using V [OF le, of 4000] by (elim conjE)
  from T have "\<forall>d k' t. d < 3500 \<longrightarrow>
      next_handle initial_state \<notin> fst ` set (pending (showFeedback k' (elapse d ?sK))) \<and>
      next_handle initial_state \<notin> fst ` set (due_timers t (showFeedback k' (elapse d ?sK)))"
    by (elim conjE)
  from this [rule_format, of 100 Deleted 0]
  have 7: "0 \<notin> fst ` set (pending (showFeedback Deleted (elapse 100 ?sK)))"
    by (simp add: n)
  from timer_inv_initial 1 2 3 4 5 6 7 show ?thesis by (intro conjI)
qed

lemma showFeedback_handleImageError: "showFeedback k (handleImageError s) = showFeedback k s"
  by (simp add: showFeedback_def handleImageError_def setTimeout_def clearTimeout_def Let_def
      split: option.splits)

text \<open>
  C8. In every state \<open>showFeedback k\<close> leaves the image-error flag false and shows \<open>k\<close>,
  and it does after an image error exactly what it does without one. The image error
  sets the flag and changes neither the feedback shown, nor the timeouts, nor the tasks.
  The callback of the timeout leaves the flag false: after a trigger and an image error
  the flag is set for every wait shorter than the display duration and clear from then
  on.
\<close>

theorem showFeedback_resets_image_error:
  "feedbackImageError (showFeedback k s) = False \<and>
   feedbackType (showFeedback k s) = Some k \<and>
   showFeedback k (handleImageError s) = showFeedback k s \<and>
   feedbackImageError (handleImageError s) = True \<and>
   feedbackType (handleImageError s) = feedbackType s \<and>
   pending (handleImageError s) = pending s \<and>
   feedbackTimeoutRef (handleImageError s) = feedbackTimeoutRef s \<and>
   tasks (handleImageError s) = tasks s \<and>
   feedbackImageError (expire s) = False \<and>
   (timer_inv s \<longrightarrow>
     (\<forall>t. feedbackImageError (elapse t (handleImageError (showFeedback k s))) =
           (t < FEEDBACK_DURATION_MS)))"
proof (intro conjI impI allI)
  fix t
  assume s: "timer_inv s"
  have "pending (handleImageError (showFeedback k s)) =
      [(next_handle s, clock s + FEEDBACK_DURATION_MS)]"
    using showFeedback_pending_inv [OF s, of k] by (simp add: handleImageError_def)
  then show "feedbackImageError (elapse t (handleImageError (showFeedback k s))) =
      (t < FEEDBACK_DURATION_MS)"
    by (auto simp: elapse_single expire_def handleImageError_def showFeedback_fields)
next
  show "showFeedback k (handleImageError s) = showFeedback k s"
    by (rule showFeedback_handleImageError)
qed (simp_all add: showFeedback_fields handleImageError_def expire_def)

theorem showFeedback_resets_image_error_witness:
  "timer_inv initial_state \<and>
   feedbackImageError (handleImageError (showFeedback Added initial_state)) = True \<and>
   feedbackImageError (showFeedback Deleted (handleImageError (showFeedback Added initial_state))) =
     False \<and>
   feedbackImageError (elapse 3499 (handleImageError (showFeedback Added initial_state))) = True \<and>
   feedbackImageError (elapse 3500 (handleImageError (showFeedback Added initial_state))) = False"
proof -
  note T = showFeedback_resets_image_error
  have 1: "feedbackImageError (handleImageError (showFeedback Added initial_state)) = True"
    using T [of Added "showFeedback Added initial_state"] by (elim conjE)
  have 2: "feedbackImageError
      (showFeedback Deleted (handleImageError (showFeedback Added initial_state))) = False"
    using T [of Deleted "handleImageError (showFeedback Added initial_state)"] by (elim conjE)
  from T [of Added initial_state] timer_inv_initial
  have "\<forall>t. feedbackImageError (elapse t (handleImageError (showFeedback Added initial_state))) =
      (t < FEEDBACK_DURATION_MS)"
    by (elim conjE) simp
  then have 3: "feedbackImageError
        (elapse 3499 (handleImageError (showFeedback Added initial_state))) = True"
    and 4: "feedbackImageError
        (elapse 3500 (handleImageError (showFeedback Added initial_state))) = False"
    by (simp_all add: FEEDBACK_DURATION_MS_def)
  from timer_inv_initial 1 2 3 4 show ?thesis by (intro conjI)
qed

subsection \<open>Identifiers\<close>

lemma ids_inv_initial: "ids_inv nanoid initial_state"
  by (simp add: ids_inv_def initial_state_def)

lemma map_task_id_toggle:
  "map task_id (map (\<lambda>t. if task_id t = i then t\<lparr>completed := \<not> completed t\<rparr> else t) ts) =
   map task_id ts"
  by (induction ts) auto

lemma ids_inv_fresh:
  assumes "inj nanoid" "ids_inv nanoid s"
  shows "nanoid (nanoid_calls s) \<notin> task_id ` set (tasks s)"
proof
  assume "nanoid (nanoid_calls s) \<in> task_id ` set (tasks s)"
  then obtain t where "t \<in> set (tasks s)" "task_id t = nanoid (nanoid_calls s)"
    by auto
  with assms(2) obtain k where "k < nanoid_calls s" "nanoid k = nanoid (nanoid_calls s)"
    by (auto simp: ids_inv_def)
  with assms(1) show False
    by (auto dest: injD)
qed

lemma ids_inv_step:
  assumes "inj nanoid" "ids_inv nanoid s"
  shows "ids_inv nanoid (step nanoid e s)"
proof (cases e)
  case PressAdd
  show ?thesis
  proof (cases "trim (inputText s) = []")
    case True
    with PressAdd assms(2) show ?thesis by (simp add: handleAddTask_def)
  next
    case False
    with assms(2) ids_inv_fresh [OF assms] show ?thesis
      unfolding PressAdd step.simps ids_inv_def
      by (auto simp: handleAddTask_def Let_def showFeedback_fields less_Suc_eq)
  qed
next
  case (Toggle i)
  from assms(2) show ?thesis
    unfolding Toggle step.simps ids_inv_def
    by (auto simp: handleToggleComplete_def Let_def showFeedback_fields map_task_id_toggle
        simp del: map_map)
next
  case (Delete i)
  from assms(2) show ?thesis
    unfolding Delete step.simps ids_inv_def
    by (simp add: handleDelete_def showFeedback_fields distinct_map_filter)
qed (use assms(2) in \<open>simp_all add: ids_inv_def elapse_fields handleImageError_def\<close>)

lemma ids_inv_fold:
  "inj nanoid \<Longrightarrow> ids_inv nanoid s \<Longrightarrow> ids_inv nanoid (fold (step nanoid) evs s)"
  by (induction evs arbitrary: s) (simp_all add: ids_inv_step)

lemma ids_inv_run: "inj nanoid \<Longrightarrow> ids_inv nanoid (run nanoid evs)"
  by (simp add: run_def ids_inv_fold ids_inv_initial)

lemma run_distinct_ids: "inj nanoid \<Longrightarrow> distinct (map task_id (tasks (run nanoid evs)))"
  using ids_inv_run [of nanoid evs] by (simp add: ids_inv_def)

text \<open>
  C3. Let \<^verbatim>\<open>nanoid\<close> never return the same identifier twice. In every state of a run
  in which the trimmed input text is not empty, \<open>handleAddTask\<close> appends one task to
  the end of the tasks and leaves the others as they are and where they are; the new
  task is not completed, its text is the trimmed input, and its identifier is the one
  \<^verbatim>\<open>nanoid\<close> returns, which no task of the collection has, so that the identifiers
  stay distinct. The handler then does what \<open>showFeedback Added\<close> does: \<open>Added\<close> is
  shown and its timeout is the one pending.
\<close>

theorem handleAddTask_appends:
  "inj nanoid \<and> trim (inputText (run nanoid evs)) \<noteq> [] \<longrightarrow>
   (let s = run nanoid evs; s' = handleAddTask nanoid s;
        new = \<lparr>task_id = nanoid (nanoid_calls s), task_text = trim (inputText s),
               completed = False\<rparr>
    in tasks s' = tasks s @ [new] \<and>
       length (tasks s') = Suc (length (tasks s)) \<and>
       task_id new \<notin> task_id ` set (tasks s) \<and>
       distinct (map task_id (tasks s')) \<and>
       s' = showFeedback Added
              (s\<lparr>tasks := tasks s @ [new], nanoid_calls := Suc (nanoid_calls s), inputText := []\<rparr>) \<and>
       feedbackType s' = Some Added \<and>
       pending s' = [(next_handle s, clock s + FEEDBACK_DURATION_MS)])"
proof (intro impI)
  assume a: "inj nanoid \<and> trim (inputText (run nanoid evs)) \<noteq> []"
  let ?s = "run nanoid evs"
  let ?s2 = "?s\<lparr>tasks := tasks ?s @ [\<lparr>task_id = nanoid (nanoid_calls ?s),
      task_text = trim (inputText ?s), completed = False\<rparr>],
      nanoid_calls := Suc (nanoid_calls ?s), inputText := []\<rparr>"
  have eq: "handleAddTask nanoid ?s = showFeedback Added ?s2"
    using a by (simp add: handleAddTask_def Let_def)
  have fresh: "nanoid (nanoid_calls ?s) \<notin> task_id ` set (tasks ?s)"
    and dist: "distinct (map task_id (tasks ?s))"
    using a ids_inv_fresh [OF _ ids_inv_run] run_distinct_ids by blast+
  have "timer_inv ?s2"
    using timer_inv_run [of nanoid evs] by (simp add: timer_inv_def)
  then have pend: "pending (showFeedback Added ?s2) = [(next_handle ?s, clock ?s + FEEDBACK_DURATION_MS)]"
    by (simp add: showFeedback_pending_inv)
  show "let s = run nanoid evs; s' = handleAddTask nanoid s;
        new = \<lparr>task_id = nanoid (nanoid_calls s), task_text = trim (inputText s),
               completed = False\<rparr>
    in tasks s' = tasks s @ [new] \<and>
       length (tasks s') = Suc (length (tasks s)) \<and>
       task_id new \<notin> task_id ` set (tasks s) \<and>
       distinct (map task_id (tasks s')) \<and>
       s' = showFeedback Added
              (s\<lparr>tasks := tasks s @ [new], nanoid_calls := Suc (nanoid_calls s), inputText := []\<rparr>) \<and>
       feedbackType s' = Some Added \<and>
       pending s' = [(next_handle s, clock s + FEEDBACK_DURATION_MS)]"
    unfolding Let_def eq
    using fresh dist pend by (simp add: showFeedback_fields)
qed


theorem handleAddTask_appends_witness:
  "inj (\<lambda>n. (0x61 :: 16 word) # replicate n 0x61) \<and>
   trim (inputText (run (\<lambda>n. 0x61 # replicate n 0x61)
      [ChangeText [0x61], PressAdd, ChangeText [0x20, 0x62, 0x20]])) = [0x62] \<and>
   tasks (handleAddTask (\<lambda>n. 0x61 # replicate n 0x61)
      (run (\<lambda>n. 0x61 # replicate n 0x61)
        [ChangeText [0x61], PressAdd, ChangeText [0x20, 0x62, 0x20]])) =
     [\<lparr>task_id = [0x61], task_text = [0x61], completed = False\<rparr>,
      \<lparr>task_id = [0x61, 0x61], task_text = [0x62], completed = False\<rparr>] \<and>
   feedbackType (handleAddTask (\<lambda>n. 0x61 # replicate n 0x61)
      (run (\<lambda>n. 0x61 # replicate n 0x61)
        [ChangeText [0x61], PressAdd, ChangeText [0x20, 0x62, 0x20]])) = Some Added"
proof -
  let ?f = "\<lambda>n. (0x61 :: 16 word) # replicate n 0x61"
  let ?evs = "[ChangeText [0x61], PressAdd, ChangeText [0x20, 0x62, 0x20]]"
  have s: "run ?f ?evs =
      \<lparr>tasks = [\<lparr>task_id = [0x61], task_text = [0x61], completed = False\<rparr>],
       inputText = [0x20, 0x62, 0x20], feedbackType = Some Added, feedbackImageError = False,
       feedbackTimeoutRef = Some 0, clock = 0, pending = [(0, 3500)], next_handle = 1,
       nanoid_calls = 1\<rparr>"
    by (simp add: run_def handleAddTask_def trim_def isWhiteSpace_def showFeedback_def
        setTimeout_def initial_state_def FEEDBACK_DURATION_MS_def)
  have i: "inj ?f"
    by (rule injI) (metis length_replicate list.inject)
  have t: "trim (inputText (run ?f ?evs)) = [0x62]"
    by (simp add: s trim_def isWhiteSpace_def)
  then have ne: "trim (inputText (run ?f ?evs)) \<noteq> []"
    by simp
  note T = handleAddTask_appends [of ?f ?evs, unfolded Let_def, rule_format, OF conjI [OF i ne]]
  from T have "tasks (handleAddTask ?f (run ?f ?evs)) =
      tasks (run ?f ?evs) @ [\<lparr>task_id = ?f (nanoid_calls (run ?f ?evs)),
        task_text = trim (inputText (run ?f ?evs)), completed = False\<rparr>]"
    by (elim conjE)
  then have 1: "tasks (handleAddTask ?f (run ?f ?evs)) =
     [\<lparr>task_id = [0x61], task_text = [0x61], completed = False\<rparr>,
      \<lparr>task_id = [0x61, 0x61], task_text = [0x62], completed = False\<rparr>]"
    unfolding t by (simp add: s)
  from T have 2: "feedbackType (handleAddTask ?f (run ?f ?evs)) = Some Added"
    by (elim conjE)
  from i t 1 2 show ?thesis by (intro conjI)
qed

subsection \<open>Toggling and deleting by position\<close>

lemma distinct_other:
  "distinct (map task_id ts) \<Longrightarrow> k < length ts \<Longrightarrow> j < length ts \<Longrightarrow> j \<noteq> k \<Longrightarrow>
   task_id (ts ! j) \<noteq> task_id (ts ! k)"
  by (metis length_map nth_eq_iff_index_eq nth_map)

lemma toggle_distinct:
  assumes "distinct (map task_id ts)" "k < length ts"
  shows "map (\<lambda>t. if task_id t = task_id (ts ! k) then t\<lparr>completed := \<not> completed t\<rparr> else t) ts =
     ts[k := (ts ! k)\<lparr>completed := \<not> completed (ts ! k)\<rparr>]"
proof (rule nth_equalityI)
  fix j
  assume "j < length (map (\<lambda>t. if task_id t = task_id (ts ! k)
      then t\<lparr>completed := \<not> completed t\<rparr> else t) ts)"
  then have j: "j < length ts" by simp
  show "map (\<lambda>t. if task_id t = task_id (ts ! k) then t\<lparr>completed := \<not> completed t\<rparr> else t) ts ! j =
     ts[k := (ts ! k)\<lparr>completed := \<not> completed (ts ! k)\<rparr>] ! j"
    using j assms distinct_other [OF assms(1) assms(2) j]
    by (cases "j = k") simp_all
qed simp

lemma find_distinct:
  "distinct (map task_id ts) \<Longrightarrow> k < length ts \<Longrightarrow>
   find (\<lambda>t. task_id t = task_id (ts ! k)) ts = Some (ts ! k)"
proof (induction ts arbitrary: k)
  case Nil
  then show ?case by simp
next
  case (Cons t ts)
  show ?case
  proof (cases k)
    case 0
    then show ?thesis by simp
  next
    case (Suc k')
    with Cons.prems have "k' < length ts" "task_id (ts ! k') \<in> task_id ` set ts"
      "task_id t \<notin> task_id ` set ts" "distinct (map task_id ts)"
      by auto
    with Cons.IH [of k'] Suc show ?thesis by auto
  qed
qed

lemma filter_distinct:
  "distinct (map task_id ts) \<Longrightarrow> k < length ts \<Longrightarrow>
   filter (\<lambda>t. task_id t \<noteq> task_id (ts ! k)) ts = take k ts @ drop (Suc k) ts"
proof (induction ts arbitrary: k)
  case Nil
  then show ?case by simp
next
  case (Cons t ts)
  show ?case
  proof (cases k)
    case 0
    from Cons.prems have "task_id t \<notin> task_id ` set ts" by simp
    then have "\<forall>x\<in>set ts. task_id x \<noteq> task_id t" by (metis imageI)
    with 0 show ?thesis by (simp add: filter_id_conv)
  next
    case (Suc k')
    with Cons.prems have "k' < length ts" "task_id (ts ! k') \<in> task_id ` set ts"
      "task_id t \<notin> task_id ` set ts" "distinct (map task_id ts)"
      by auto
    with Cons.IH [of k'] Suc show ?thesis by auto
  qed
qed

lemma filter_absent: "i \<notin> task_id ` set ts \<Longrightarrow> filter (\<lambda>t. task_id t \<noteq> i) ts = ts"
  by (induction ts) auto

lemma map_task_id_update:
  "k < length ts \<Longrightarrow> map task_id (ts[k := (ts ! k)\<lparr>completed := b\<rparr>]) = map task_id ts"
  by (simp add: map_update list_update_same_conv)

lemma handleToggleComplete_distinct:
  assumes "distinct (map task_id (tasks s))" "k < length (tasks s)"
  shows "handleToggleComplete (task_id (tasks s ! k)) s =
     (showFeedback (if completed (tasks s ! k) then Uncompleted else Completed) s)
       \<lparr>tasks := (tasks s)[k := (tasks s ! k)\<lparr>completed := \<not> completed (tasks s ! k)\<rparr>]\<rparr>"
proof -
  let ?ts = "(tasks s)[k := (tasks s ! k)\<lparr>completed := \<not> completed (tasks s ! k)\<rparr>]"
  have ids: "map task_id ?ts = map task_id (tasks s)"
    using assms(2) by (simp add: map_update list_update_same_conv)
  have "find (\<lambda>t. task_id t = task_id (?ts ! k)) ?ts = Some (?ts ! k)"
    by (rule find_distinct) (simp_all add: ids assms)
  then have "find (\<lambda>t. task_id t = task_id (tasks s ! k)) ?ts =
      Some ((tasks s ! k)\<lparr>completed := \<not> completed (tasks s ! k)\<rparr>)"
    using assms(2) by simp
  then show ?thesis
    by (simp add: handleToggleComplete_def toggle_distinct [OF assms])
qed


text \<open>
  C5. Let the tasks have distinct identifiers and let \<open>t\<close> be the task at position
  \<open>k\<close>. Toggling the identifier of \<open>t\<close> flips the flag of the task at \<open>k\<close>, and toggling
  it again gives back the tasks as they were. The first call shows \<open>Completed\<close> when
  the flag was false and \<open>Uncompleted\<close> when it was true, the second call the other
  one; a call shows \<open>Completed\<close> exactly when the flag has become true and
  \<open>Uncompleted\<close> exactly when it has become false. Each call is the \<open>showFeedback\<close> of
  that kind together with the update of the task at \<open>k\<close>.
\<close>

theorem handleToggleComplete_twice:
  "distinct (map task_id (tasks s)) \<and> k < length (tasks s) \<longrightarrow>
   (let t = tasks s ! k; i = task_id t;
        s1 = handleToggleComplete i s; s2 = handleToggleComplete i s1
    in completed (tasks s1 ! k) = (\<not> completed t) \<and>
       completed (tasks s2 ! k) = completed t \<and>
       tasks s2 = tasks s \<and>
       feedbackType s1 = Some (if completed t then Uncompleted else Completed) \<and>
       feedbackType s2 = Some (if completed t then Completed else Uncompleted) \<and>
       (feedbackType s1 = Some Completed) = completed (tasks s1 ! k) \<and>
       (feedbackType s1 = Some Uncompleted) = (\<not> completed (tasks s1 ! k)) \<and>
       s1 = (showFeedback (if completed t then Uncompleted else Completed) s)
              \<lparr>tasks := (tasks s)[k := t\<lparr>completed := \<not> completed t\<rparr>]\<rparr> \<and>
       s2 = (showFeedback (if completed t then Completed else Uncompleted) s1)
              \<lparr>tasks := tasks s\<rparr>)"
proof (intro impI)
  assume a: "distinct (map task_id (tasks s)) \<and> k < length (tasks s)"
  then have d: "distinct (map task_id (tasks s))" and k: "k < length (tasks s)"
    by simp_all
  let ?t = "tasks s ! k"
  let ?s1 = "handleToggleComplete (task_id ?t) s"
  have s1: "?s1 = (showFeedback (if completed ?t then Uncompleted else Completed) s)
      \<lparr>tasks := (tasks s)[k := ?t\<lparr>completed := \<not> completed ?t\<rparr>]\<rparr>"
    by (rule handleToggleComplete_distinct [OF d k])
  have t1: "tasks ?s1 = (tasks s)[k := ?t\<lparr>completed := \<not> completed ?t\<rparr>]"
    by (simp add: s1)
  have k1: "k < length (tasks ?s1)" and n1: "tasks ?s1 ! k = ?t\<lparr>completed := \<not> completed ?t\<rparr>"
    using k by (simp_all add: t1)
  have d1: "distinct (map task_id (tasks ?s1))"
    using d k by (simp only: t1 map_task_id_update)
  have "handleToggleComplete (task_id (tasks ?s1 ! k)) ?s1 =
     (showFeedback (if completed (tasks ?s1 ! k) then Uncompleted else Completed) ?s1)
       \<lparr>tasks := (tasks ?s1)[k := (tasks ?s1 ! k)\<lparr>completed := \<not> completed (tasks ?s1 ! k)\<rparr>]\<rparr>"
    by (rule handleToggleComplete_distinct [OF d1 k1])
  then have s2: "handleToggleComplete (task_id ?t) ?s1 =
      (showFeedback (if completed ?t then Completed else Uncompleted) ?s1)\<lparr>tasks := tasks s\<rparr>"
    unfolding n1 by (simp add: t1 list_update_same_conv)
  show "let t = tasks s ! k; i = task_id t;
        s1 = handleToggleComplete i s; s2 = handleToggleComplete i s1
    in completed (tasks s1 ! k) = (\<not> completed t) \<and>
       completed (tasks s2 ! k) = completed t \<and>
       tasks s2 = tasks s \<and>
       feedbackType s1 = Some (if completed t then Uncompleted else Completed) \<and>
       feedbackType s2 = Some (if completed t then Completed else Uncompleted) \<and>
       (feedbackType s1 = Some Completed) = completed (tasks s1 ! k) \<and>
       (feedbackType s1 = Some Uncompleted) = (\<not> completed (tasks s1 ! k)) \<and>
       s1 = (showFeedback (if completed t then Uncompleted else Completed) s)
              \<lparr>tasks := (tasks s)[k := t\<lparr>completed := \<not> completed t\<rparr>]\<rparr> \<and>
       s2 = (showFeedback (if completed t then Completed else Uncompleted) s1)
              \<lparr>tasks := tasks s\<rparr>"
    unfolding Let_def s2
    using k by (simp add: s1 showFeedback_fields)
qed

theorem handleToggleComplete_twice_witness:
  "distinct (map task_id (tasks (initial_state\<lparr>tasks := [\<lparr>task_id = [0x61], task_text = [0x78], completed = False\<rparr>, \<lparr>task_id = [0x62], task_text = [0x79], completed = True\<rparr>]\<rparr>))) \<and>
   Suc 0 < length (tasks (initial_state\<lparr>tasks := [\<lparr>task_id = [0x61], task_text = [0x78], completed = False\<rparr>, \<lparr>task_id = [0x62], task_text = [0x79], completed = True\<rparr>]\<rparr>)) \<and>
   feedbackType (handleToggleComplete [0x62] (initial_state\<lparr>tasks := [\<lparr>task_id = [0x61], task_text = [0x78], completed = False\<rparr>, \<lparr>task_id = [0x62], task_text = [0x79], completed = True\<rparr>]\<rparr>)) = Some Uncompleted \<and>
   feedbackType (handleToggleComplete [0x62] (handleToggleComplete [0x62] (initial_state\<lparr>tasks := [\<lparr>task_id = [0x61], task_text = [0x78], completed = False\<rparr>, \<lparr>task_id = [0x62], task_text = [0x79], completed = True\<rparr>]\<rparr>))) = Some Completed \<and>
   completed (tasks (handleToggleComplete [0x62] (initial_state\<lparr>tasks := [\<lparr>task_id = [0x61], task_text = [0x78], completed = False\<rparr>, \<lparr>task_id = [0x62], task_text = [0x79], completed = True\<rparr>]\<rparr>)) ! Suc 0) = False \<and>
   tasks (handleToggleComplete [0x62] (handleToggleComplete [0x62] (initial_state\<lparr>tasks := [\<lparr>task_id = [0x61], task_text = [0x78], completed = False\<rparr>, \<lparr>task_id = [0x62], task_text = [0x79], completed = True\<rparr>]\<rparr>))) = [\<lparr>task_id = [0x61], task_text = [0x78], completed = False\<rparr>, \<lparr>task_id = [0x62], task_text = [0x79], completed = True\<rparr>]"
proof -
  let ?S = "(initial_state\<lparr>tasks := [\<lparr>task_id = [0x61], task_text = [0x78], completed = False\<rparr>, \<lparr>task_id = [0x62], task_text = [0x79], completed = True\<rparr>]\<rparr>)"
  have d: "distinct (map task_id (tasks ?S))" and k: "Suc 0 < length (tasks ?S)"
    by simp_all
  note T = handleToggleComplete_twice [of ?S "Suc 0", unfolded Let_def, rule_format,
      OF conjI [OF d k]]
  have 1: "feedbackType (handleToggleComplete [0x62] ?S) = Some Uncompleted"
    using T [THEN conjunct2, THEN conjunct2, THEN conjunct2, THEN conjunct1] by simp
  have 2: "feedbackType (handleToggleComplete [0x62] (handleToggleComplete [0x62] ?S)) =
      Some Completed"
    using T [THEN conjunct2, THEN conjunct2, THEN conjunct2, THEN conjunct2, THEN conjunct1] by simp
  have 3: "completed (tasks (handleToggleComplete [0x62] ?S) ! Suc 0) = False"
    using T [THEN conjunct1] by simp
  have 4: "tasks (handleToggleComplete [0x62] (handleToggleComplete [0x62] ?S)) = [\<lparr>task_id = [0x61], task_text = [0x78], completed = False\<rparr>, \<lparr>task_id = [0x62], task_text = [0x79], completed = True\<rparr>]"
    using T [THEN conjunct2, THEN conjunct2, THEN conjunct1] by simp
  from d k 1 2 3 4 show ?thesis by (intro conjI)
qed

text \<open>
  C9. \<open>handleToggleComplete\<close> keeps the number of tasks, their identifiers and their
  texts, position by position, and the input text. A task with another identifier is
  unchanged; a task with the identifier differs from what it was in \<open>completed\<close> only.
  When the identifiers are distinct, the tasks after the call are the tasks before it
  with the one at the position of the identifier updated.
\<close>

theorem handleToggleComplete_frame:
  "(let s' = handleToggleComplete i s
    in length (tasks s') = length (tasks s) \<and>
       map task_id (tasks s') = map task_id (tasks s) \<and>
       map task_text (tasks s') = map task_text (tasks s) \<and>
       inputText s' = inputText s \<and>
       (\<forall>k<length (tasks s).
          tasks s' ! k =
            (if task_id (tasks s ! k) = i
             then (tasks s ! k)\<lparr>completed := \<not> completed (tasks s ! k)\<rparr>
             else tasks s ! k)) \<and>
       (\<forall>k<length (tasks s).
          distinct (map task_id (tasks s)) \<and> task_id (tasks s ! k) = i \<longrightarrow>
          tasks s' = (tasks s)[k := (tasks s ! k)\<lparr>completed := \<not> completed (tasks s ! k)\<rparr>]))"
proof -
  let ?f = "\<lambda>t. if task_id t = i then t\<lparr>completed := \<not> completed t\<rparr> else t"
  have t: "tasks (handleToggleComplete i s) = map ?f (tasks s)"
    by (simp add: handleToggleComplete_def Let_def)
  have x: "inputText (handleToggleComplete i s) = inputText s"
    by (simp add: handleToggleComplete_def Let_def showFeedback_fields)
  have tx: "map task_text (map ?f ts) = map task_text ts" for ts
    by (induction ts) auto
  have u: "map ?f (tasks s) = (tasks s)[k := (tasks s ! k)\<lparr>completed := \<not> completed (tasks s ! k)\<rparr>]"
    if "k < length (tasks s)" "distinct (map task_id (tasks s))" "task_id (tasks s ! k) = i" for k
    using toggle_distinct [OF that(2) that(1)] that(3) by simp
  show ?thesis
    unfolding Let_def t x
    by (intro conjI allI impI) (simp_all add: map_task_id_toggle tx u del: map_map)
qed

theorem handleToggleComplete_frame_witness:
  "length (tasks (handleToggleComplete [0x62] (initial_state\<lparr>tasks := [\<lparr>task_id = [0x61], task_text = [0x78], completed = False\<rparr>, \<lparr>task_id = [0x62], task_text = [0x79], completed = True\<rparr>]\<rparr>))) = length (tasks (initial_state\<lparr>tasks := [\<lparr>task_id = [0x61], task_text = [0x78], completed = False\<rparr>, \<lparr>task_id = [0x62], task_text = [0x79], completed = True\<rparr>]\<rparr>)) \<and>
   (0 :: nat) < length (tasks (initial_state\<lparr>tasks := [\<lparr>task_id = [0x61], task_text = [0x78], completed = False\<rparr>, \<lparr>task_id = [0x62], task_text = [0x79], completed = True\<rparr>]\<rparr>)) \<and> Suc 0 < length (tasks (initial_state\<lparr>tasks := [\<lparr>task_id = [0x61], task_text = [0x78], completed = False\<rparr>, \<lparr>task_id = [0x62], task_text = [0x79], completed = True\<rparr>]\<rparr>)) \<and>
   distinct (map task_id (tasks (initial_state\<lparr>tasks := [\<lparr>task_id = [0x61], task_text = [0x78], completed = False\<rparr>, \<lparr>task_id = [0x62], task_text = [0x79], completed = True\<rparr>]\<rparr>))) \<and>
   tasks (handleToggleComplete [0x62] (initial_state\<lparr>tasks := [\<lparr>task_id = [0x61], task_text = [0x78], completed = False\<rparr>, \<lparr>task_id = [0x62], task_text = [0x79], completed = True\<rparr>]\<rparr>)) ! 0 = \<lparr>task_id = [0x61], task_text = [0x78], completed = False\<rparr> \<and>
   tasks (handleToggleComplete [0x62] (initial_state\<lparr>tasks := [\<lparr>task_id = [0x61], task_text = [0x78], completed = False\<rparr>, \<lparr>task_id = [0x62], task_text = [0x79], completed = True\<rparr>]\<rparr>)) ! Suc 0 = \<lparr>task_id = [0x62], task_text = [0x79], completed = False\<rparr> \<and>
   tasks (handleToggleComplete [0x62] (initial_state\<lparr>tasks := [\<lparr>task_id = [0x61], task_text = [0x78], completed = False\<rparr>, \<lparr>task_id = [0x62], task_text = [0x79], completed = True\<rparr>]\<rparr>)) = [\<lparr>task_id = [0x61], task_text = [0x78], completed = False\<rparr>, \<lparr>task_id = [0x62], task_text = [0x79], completed = False\<rparr>]"
proof -
  let ?S = "(initial_state\<lparr>tasks := [\<lparr>task_id = [0x61], task_text = [0x78], completed = False\<rparr>, \<lparr>task_id = [0x62], task_text = [0x79], completed = True\<rparr>]\<rparr>)"
  have d: "distinct (map task_id (tasks ?S))" and k0: "(0 :: nat) < length (tasks ?S)"
    and k1: "Suc 0 < length (tasks ?S)"
    by simp_all
  have e: "task_id (tasks ?S ! Suc 0) = [0x62]"
    by simp
  note T = handleToggleComplete_frame [of "[0x62]" ?S, unfolded Let_def]
  from T have 1: "length (tasks (handleToggleComplete [0x62] ?S)) = length (tasks ?S)"
    by (elim conjE)
  from T have A: "\<forall>k<length (tasks ?S). tasks (handleToggleComplete [0x62] ?S) ! k =
      (if task_id (tasks ?S ! k) = [0x62]
       then (tasks ?S ! k)\<lparr>completed := \<not> completed (tasks ?S ! k)\<rparr> else tasks ?S ! k)"
    by (elim conjE)
  have 2: "tasks (handleToggleComplete [0x62] ?S) ! 0 = \<lparr>task_id = [0x61], task_text = [0x78], completed = False\<rparr>"
    using A [rule_format, OF k0] by simp
  have 3: "tasks (handleToggleComplete [0x62] ?S) ! Suc 0 = \<lparr>task_id = [0x62], task_text = [0x79], completed = False\<rparr>"
    using A [rule_format, OF k1] by simp
  from T have B: "\<forall>k<length (tasks ?S).
      distinct (map task_id (tasks ?S)) \<and> task_id (tasks ?S ! k) = [0x62] \<longrightarrow>
      tasks (handleToggleComplete [0x62] ?S) =
        (tasks ?S)[k := (tasks ?S ! k)\<lparr>completed := \<not> completed (tasks ?S ! k)\<rparr>]"
    by (elim conjE)
  have 4: "tasks (handleToggleComplete [0x62] ?S) = [\<lparr>task_id = [0x61], task_text = [0x78], completed = False\<rparr>, \<lparr>task_id = [0x62], task_text = [0x79], completed = False\<rparr>]"
    using B [rule_format, OF k1 conjI [OF d e]] by simp
  from 1 k0 k1 d 2 3 4 show ?thesis by (intro conjI)
qed

text \<open>
  C6. After \<open>handleDelete\<close> the tasks are those of before whose identifier is not the
  given one, in their order and unchanged: no task has the identifier any more, and
  when none had it the tasks are as before. When the identifiers are distinct and the
  task at position \<open>k\<close> has the identifier, the tasks after the call are the ones before
  \<open>k\<close> followed by the ones after \<open>k\<close>, one task fewer. In every case the handler does
  what \<open>showFeedback Deleted\<close> does: \<open>Deleted\<close> is shown.
\<close>

theorem handleDelete_removes:
  "(let s' = handleDelete i s
    in tasks s' = filter (\<lambda>t. task_id t \<noteq> i) (tasks s) \<and>
       s' = showFeedback Deleted (s\<lparr>tasks := filter (\<lambda>t. task_id t \<noteq> i) (tasks s)\<rparr>) \<and>
       feedbackType s' = Some Deleted \<and>
       i \<notin> task_id ` set (tasks s') \<and>
       (i \<notin> task_id ` set (tasks s) \<longrightarrow> tasks s' = tasks s) \<and>
       (\<forall>k<length (tasks s).
          distinct (map task_id (tasks s)) \<and> task_id (tasks s ! k) = i \<longrightarrow>
          tasks s' = take k (tasks s) @ drop (Suc k) (tasks s) \<and>
          Suc (length (tasks s')) = length (tasks s)))"
proof -
  have t: "tasks (handleDelete i s) = filter (\<lambda>t. task_id t \<noteq> i) (tasks s)"
    by (simp add: handleDelete_def showFeedback_fields)
  have f: "feedbackType (handleDelete i s) = Some Deleted"
    by (simp add: handleDelete_def showFeedback_fields)
  have u: "filter (\<lambda>t. task_id t \<noteq> i) (tasks s) = take k (tasks s) @ drop (Suc k) (tasks s)"
    if "k < length (tasks s)" "distinct (map task_id (tasks s))" "task_id (tasks s ! k) = i" for k
    using filter_distinct [OF that(2) that(1)] that(3) by simp
  show ?thesis
    unfolding Let_def t f
    by (intro conjI allI impI) (auto simp: handleDelete_def filter_absent u)
qed

theorem handleDelete_removes_witness:
  "Suc 0 < length (tasks (initial_state\<lparr>tasks := [\<lparr>task_id = [0x61], task_text = [0x78], completed = False\<rparr>, \<lparr>task_id = [0x62], task_text = [0x79], completed = True\<rparr>, \<lparr>task_id = [0x63], task_text = [0x7A], completed = False\<rparr>]\<rparr>)) \<and>
   distinct (map task_id (tasks (initial_state\<lparr>tasks := [\<lparr>task_id = [0x61], task_text = [0x78], completed = False\<rparr>, \<lparr>task_id = [0x62], task_text = [0x79], completed = True\<rparr>, \<lparr>task_id = [0x63], task_text = [0x7A], completed = False\<rparr>]\<rparr>))) \<and>
   tasks (handleDelete [0x62] (initial_state\<lparr>tasks := [\<lparr>task_id = [0x61], task_text = [0x78], completed = False\<rparr>, \<lparr>task_id = [0x62], task_text = [0x79], completed = True\<rparr>, \<lparr>task_id = [0x63], task_text = [0x7A], completed = False\<rparr>]\<rparr>)) = [\<lparr>task_id = [0x61], task_text = [0x78], completed = False\<rparr>, \<lparr>task_id = [0x63], task_text = [0x7A], completed = False\<rparr>] \<and>
   feedbackType (handleDelete [0x62] (initial_state\<lparr>tasks := [\<lparr>task_id = [0x61], task_text = [0x78], completed = False\<rparr>, \<lparr>task_id = [0x62], task_text = [0x79], completed = True\<rparr>, \<lparr>task_id = [0x63], task_text = [0x7A], completed = False\<rparr>]\<rparr>)) = Some Deleted \<and>
   [0x7A] \<notin> task_id ` set (tasks (initial_state\<lparr>tasks := [\<lparr>task_id = [0x61], task_text = [0x78], completed = False\<rparr>, \<lparr>task_id = [0x62], task_text = [0x79], completed = True\<rparr>, \<lparr>task_id = [0x63], task_text = [0x7A], completed = False\<rparr>]\<rparr>)) \<and>
   tasks (handleDelete [0x7A] (initial_state\<lparr>tasks := [\<lparr>task_id = [0x61], task_text = [0x78], completed = False\<rparr>, \<lparr>task_id = [0x62], task_text = [0x79], completed = True\<rparr>, \<lparr>task_id = [0x63], task_text = [0x7A], completed = False\<rparr>]\<rparr>)) = tasks (initial_state\<lparr>tasks := [\<lparr>task_id = [0x61], task_text = [0x78], completed = False\<rparr>, \<lparr>task_id = [0x62], task_text = [0x79], completed = True\<rparr>, \<lparr>task_id = [0x63], task_text = [0x7A], completed = False\<rparr>]\<rparr>) \<and>
   feedbackType (handleDelete [0x7A] (initial_state\<lparr>tasks := [\<lparr>task_id = [0x61], task_text = [0x78], completed = False\<rparr>, \<lparr>task_id = [0x62], task_text = [0x79], completed = True\<rparr>, \<lparr>task_id = [0x63], task_text = [0x7A], completed = False\<rparr>]\<rparr>)) = Some Deleted"
proof -
  let ?S = "(initial_state\<lparr>tasks := [\<lparr>task_id = [0x61], task_text = [0x78], completed = False\<rparr>, \<lparr>task_id = [0x62], task_text = [0x79], completed = True\<rparr>, \<lparr>task_id = [0x63], task_text = [0x7A], completed = False\<rparr>]\<rparr>)"
  have d: "distinct (map task_id (tasks ?S))" and k1: "Suc 0 < length (tasks ?S)"
    by simp_all
  have e: "task_id (tasks ?S ! Suc 0) = [0x62]"
    by simp
  have n: "[0x7A] \<notin> task_id ` set (tasks ?S)"
    by simp
  note T = handleDelete_removes [of "[0x62]" ?S, unfolded Let_def]
  note U = handleDelete_removes [of "[0x7A]" ?S, unfolded Let_def]
  from T have B: "\<forall>k<length (tasks ?S).
      distinct (map task_id (tasks ?S)) \<and> task_id (tasks ?S ! k) = [0x62] \<longrightarrow>
      tasks (handleDelete [0x62] ?S) = take k (tasks ?S) @ drop (Suc k) (tasks ?S) \<and>
      Suc (length (tasks (handleDelete [0x62] ?S))) = length (tasks ?S)"
    by (elim conjE)
  have 1: "tasks (handleDelete [0x62] ?S) = [\<lparr>task_id = [0x61], task_text = [0x78], completed = False\<rparr>, \<lparr>task_id = [0x63], task_text = [0x7A], completed = False\<rparr>]"
    using B [rule_format, OF k1 conjI [OF d e]] by simp
  from T have 2: "feedbackType (handleDelete [0x62] ?S) = Some Deleted"
    by (elim conjE)
  from U have "[0x7A] \<notin> task_id ` set (tasks ?S) \<longrightarrow> tasks (handleDelete [0x7A] ?S) = tasks ?S"
    by (elim conjE)
  with n have 3: "tasks (handleDelete [0x7A] ?S) = tasks ?S"
    by (rule rev_mp)
  from U have 4: "feedbackType (handleDelete [0x7A] ?S) = Some Deleted"
    by (elim conjE)
  from k1 d 1 2 n 3 4 show ?thesis by (intro conjI)
qed

end
